theory Spec2Isabelle
  imports Main "HOL-Library.Word"
begin

unbundle bit_operations_syntax

section \<open>Package debounce\<close>

subsection \<open>Timers\<close>

text \<open>
  Durations and instants are Go \<open>time.Duration\<close> and monotonic clock readings, taken in
  one common unit as integers. A \<open>*time.Timer\<close> made by \<open>time.NewTimer(d)\<close> at instant
  \<open>now\<close> delivers exactly one tick on its channel, at or after \<open>now + d\<close>; \<open>received\<close>
  records that the tick has been taken from the channel, after which the channel stays
  silent for ever. A nil timer pointer is \<open>None\<close>; the fields \<open>intervalChan\<close> and
  \<open>maxDelayChan\<close> of the source are always the channel of the timer stored beside them
  (both are set and cleared together), so they are not kept separately.
\<close>

datatype timer = Timer (deadline: int) (received: bool)

record debounceTimers =
  interval :: int
  maxDelay :: int
  intervalTimer :: "timer option"
  maxDelayTimer :: "timer option"

definition resetInterval :: "int \<Rightarrow> debounceTimers \<Rightarrow> debounceTimers" where
  "resetInterval now t = t\<lparr>intervalTimer := Some (Timer (now + interval t) False)\<rparr>"

definition clearInterval :: "debounceTimers \<Rightarrow> debounceTimers" where
  "clearInterval t = (if intervalTimer t = None then t else t\<lparr>intervalTimer := None\<rparr>)"

definition setMaxDelay :: "int \<Rightarrow> debounceTimers \<Rightarrow> debounceTimers" where
  "setMaxDelay now t =
     (if maxDelayTimer t = None \<and> maxDelay t \<noteq> 0
      then t\<lparr>maxDelayTimer := Some (Timer (now + maxDelay t) False)\<rparr>
      else t)"

definition clearMaxDelay :: "debounceTimers \<Rightarrow> debounceTimers" where
  "clearMaxDelay t = (if maxDelayTimer t = None then t else t\<lparr>maxDelayTimer := None\<rparr>)"

text \<open>
  A \<open>select\<close> case that receives from a timer channel can be taken at instant \<open>now\<close>
  only when the channel is not nil, the timer has expired and its tick is still in the
  channel. Taking the case removes the tick.
\<close>

fun ready :: "int \<Rightarrow> timer option \<Rightarrow> bool" where
  "ready now None = False"
| "ready now (Some (Timer d r)) = (\<not> r \<and> d \<le> now)"

fun armed :: "timer option \<Rightarrow> bool" where
  "armed None = False"
| "armed (Some (Timer d r)) = (\<not> r)"

fun takeTick :: "timer option \<Rightarrow> timer option" where
  "takeTick None = None"
| "takeTick (Some (Timer d r)) = Some (Timer d True)"

definition takeInterval :: "debounceTimers \<Rightarrow> debounceTimers" where
  "takeInterval t = t\<lparr>intervalTimer := takeTick (intervalTimer t)\<rparr>"

definition takeMaxDelay :: "debounceTimers \<Rightarrow> debounceTimers" where
  "takeMaxDelay t = t\<lparr>maxDelayTimer := takeTick (maxDelayTimer t)\<rparr>"

definition newTimers :: "int \<Rightarrow> int \<Rightarrow> debounceTimers" where
  "newTimers i m = \<lparr>interval = i, maxDelay = m, intervalTimer = None, maxDelayTimer = None\<rparr>"

subsection \<open>Schedules\<close>

text \<open>
  One iteration of a worker's \<open>for { select { ... } }\<close> loop takes one of three cases:
  a receive from \<open>in\<close> (a value, or the notice that \<open>in\<close> was closed), the interval
  timer's tick, or the max-delay timer's tick. A schedule lists, in order, the instant
  and the case of every iteration. The consumer of \<open>out\<close> is taken to receive every
  value sent, so a send on \<open>out\<close> appends to the list of emitted values.
\<close>

datatype 'a selected = Recv 'a | InClosed | IntervalFired | MaxDelayFired

type_synonym 'a schedule = "(int \<times> 'a selected) list"

subsection \<open>NewGrouped\<close>

record 'a grouped =
  g_pending :: "'a list"
  g_t :: debounceTimers
  g_out :: "'a list list"
  g_closed :: bool

definition grouped_init :: "int \<Rightarrow> int \<Rightarrow> 'a grouped" where
  "grouped_init i m = \<lparr>g_pending = [], g_t = newTimers i m, g_out = [], g_closed = False\<rparr>"

text \<open>
  The code after the loop (the last flush and \<open>close(out)\<close>) runs when the loop is left,
  which happens exactly in the \<open>InClosed\<close> case.
\<close>

definition grouped_finish :: "'a grouped \<Rightarrow> 'a grouped" where
  "grouped_finish s =
     (let s1 = (if length (g_pending s) \<noteq> 0 then s\<lparr>g_out := g_out s @ [g_pending s]\<rparr> else s)
      in s1\<lparr>g_closed := True\<rparr>)"

fun grouped_step :: "int \<Rightarrow> 'a selected \<Rightarrow> 'a grouped \<Rightarrow> 'a grouped option" where
  "grouped_step now (Recv v) s =
     (if g_closed s then None
      else Some (s\<lparr>g_pending := g_pending s @ [v],
                   g_t := setMaxDelay now (resetInterval now (clearInterval (g_t s)))\<rparr>))"
| "grouped_step now InClosed s =
     (if g_closed s then None
      else Some (grouped_finish (s\<lparr>g_t := clearInterval (clearInterval (g_t s))\<rparr>)))"
| "grouped_step now IntervalFired s =
     (if g_closed s \<or> \<not> ready now (intervalTimer (g_t s)) then None
      else Some (s\<lparr>g_out := g_out s @ [g_pending s], g_pending := [],
                   g_t := clearMaxDelay (takeInterval (g_t s))\<rparr>))"
| "grouped_step now MaxDelayFired s =
     (if g_closed s \<or> \<not> ready now (maxDelayTimer (g_t s)) then None
      else Some (s\<lparr>g_out := g_out s @ [g_pending s], g_pending := [],
                   g_t := clearInterval (clearMaxDelay (takeMaxDelay (g_t s)))\<rparr>))"

fun grouped_loop :: "'a schedule \<Rightarrow> 'a grouped \<Rightarrow> 'a grouped option" where
  "grouped_loop [] s = Some s"
| "grouped_loop ((now, e) # es) s =
     (case grouped_step now e s of None \<Rightarrow> None | Some s' \<Rightarrow> grouped_loop es s')"

definition NewGrouped :: "int \<Rightarrow> int \<Rightarrow> 'a schedule \<Rightarrow> 'a grouped option" where
  "NewGrouped i m sched = grouped_loop sched (grouped_init i m)"

subsection \<open>New (the signal variant)\<close>

text \<open>The input and output elements are \<open>struct{}\<close> values, modelled as \<open>unit\<close>.\<close>

record signal =
  s_pending :: bool
  s_t :: debounceTimers
  s_out :: "unit list"
  s_closed :: bool

definition signal_init :: "int \<Rightarrow> int \<Rightarrow> signal" where
  "signal_init i m = \<lparr>s_pending = False, s_t = newTimers i m, s_out = [], s_closed = False\<rparr>"

definition signal_finish :: "signal \<Rightarrow> signal" where
  "signal_finish s =
     (let s1 = (if s_pending s then s\<lparr>s_out := s_out s @ [()]\<rparr> else s)
      in s1\<lparr>s_closed := True\<rparr>)"

fun signal_step :: "int \<Rightarrow> unit selected \<Rightarrow> signal \<Rightarrow> signal option" where
  "signal_step now (Recv v) s =
     (if s_closed s then None
      else Some (s\<lparr>s_pending := True,
                   s_t := setMaxDelay now (resetInterval now (clearInterval (s_t s)))\<rparr>))"
| "signal_step now InClosed s =
     (if s_closed s then None
      else Some (signal_finish (s\<lparr>s_t := clearInterval (clearInterval (s_t s))\<rparr>)))"
| "signal_step now IntervalFired s =
     (if s_closed s \<or> \<not> ready now (intervalTimer (s_t s)) then None
      else Some (s\<lparr>s_out := s_out s @ [()], s_pending := False,
                   s_t := clearMaxDelay (takeInterval (s_t s))\<rparr>))"
| "signal_step now MaxDelayFired s =
     (if s_closed s \<or> \<not> ready now (maxDelayTimer (s_t s)) then None
      else let s1 = (if s_pending s then s\<lparr>s_out := s_out s @ [()], s_pending := False\<rparr> else s)
           in Some (s1\<lparr>s_t := clearInterval (clearMaxDelay (takeMaxDelay (s_t s)))\<rparr>))"

fun signal_loop :: "unit schedule \<Rightarrow> signal \<Rightarrow> signal option" where
  "signal_loop [] s = Some s"
| "signal_loop ((now, e) # es) s =
     (case signal_step now e s of None \<Rightarrow> None | Some s' \<Rightarrow> signal_loop es s')"

definition New :: "int \<Rightarrow> int \<Rightarrow> unit schedule \<Rightarrow> signal option" where
  "New i m sched = signal_loop sched (signal_init i m)"

subsection \<open>NewLast\<close>

text \<open>
  The elements are \<open>interface{}\<close> values; the nil interface value is \<open>None\<close>. The worker
  uses \<open>last != nil\<close> as its test for pending data.
\<close>

record 'a lastv =
  l_last :: "'a option"
  l_t :: debounceTimers
  l_out :: "'a option list"
  l_closed :: bool


definition last_finish :: "'a lastv \<Rightarrow> 'a lastv" where
  "last_finish s =
     (let s1 = (if l_last s \<noteq> None then s\<lparr>l_out := l_out s @ [l_last s]\<rparr> else s)
      in s1\<lparr>l_closed := True\<rparr>)"




subsection \<open>NewCounted\<close>

text \<open>
  The counter is a Go \<open>int\<close>; it counts the receives of one burst, and is taken as an
  unbounded integer (a burst of \<open>2^63\<close> receives is out of reach).
\<close>

record counted =
  c_count :: int
  c_t :: debounceTimers
  c_out :: "int list"
  c_closed :: bool

definition counted_init :: "int \<Rightarrow> int \<Rightarrow> counted" where
  "counted_init i m = \<lparr>c_count = 0, c_t = newTimers i m, c_out = [], c_closed = False\<rparr>"

definition counted_finish :: "counted \<Rightarrow> counted" where
  "counted_finish s =
     (let s1 = (if c_count s \<noteq> 0 then s\<lparr>c_out := c_out s @ [c_count s]\<rparr> else s)
      in s1\<lparr>c_closed := True\<rparr>)"

fun counted_step :: "int \<Rightarrow> unit selected \<Rightarrow> counted \<Rightarrow> counted option" where
  "counted_step now (Recv v) s =
     (if c_closed s then None
      else Some (s\<lparr>c_count := c_count s + 1,
                   c_t := setMaxDelay now (resetInterval now (clearInterval (c_t s)))\<rparr>))"
| "counted_step now InClosed s =
     (if c_closed s then None
      else Some (counted_finish (s\<lparr>c_t := clearInterval (clearInterval (c_t s))\<rparr>)))"
| "counted_step now IntervalFired s =
     (if c_closed s \<or> \<not> ready now (intervalTimer (c_t s)) then None
      else Some (s\<lparr>c_out := c_out s @ [c_count s], c_count := 0,
                   c_t := clearMaxDelay (takeInterval (c_t s))\<rparr>))"
| "counted_step now MaxDelayFired s =
     (if c_closed s \<or> \<not> ready now (maxDelayTimer (c_t s)) then None
      else Some (s\<lparr>c_out := c_out s @ [c_count s], c_count := 0,
                   c_t := clearInterval (clearMaxDelay (takeMaxDelay (c_t s)))\<rparr>))"

fun counted_loop :: "unit schedule \<Rightarrow> counted \<Rightarrow> counted option" where
  "counted_loop [] s = Some s"
| "counted_loop ((now, e) # es) s =
     (case counted_step now e s of None \<Rightarrow> None | Some s' \<Rightarrow> counted_loop es s')"

definition NewCounted :: "int \<Rightarrow> int \<Rightarrow> unit schedule \<Rightarrow> counted option" where
  "NewCounted i m sched = counted_loop sched (counted_init i m)"

section \<open>Package watch\<close>

subsection \<open>Paths, file metadata and the operating system\<close>

text \<open>
  A path is a cleaned path as \<open>filepath.Clean\<close> and \<open>filepath.Abs\<close> return it: rooted or
  not, followed by its elements. \<open>Path True []\<close> is the root \<open>/\<close> and \<open>Path False []\<close>
  is the current directory \<open>.\<close>. On such paths \<open>filepath.Dir\<close> drops the last element,
  and leaves \<open>/\<close> and \<open>.\<close> as they are.
\<close>

datatype path = Path (isAbs: bool) (elems: "string list")

definition Dir :: "path \<Rightarrow> path" where
  "Dir p = Path (isAbs p) (butlast (elems p))"

text \<open>
  \<open>os.FileInfo\<close> keeps what the watcher reads from it: whether the file is a directory,
  and the identity (device and inode) that \<open>os.SameFile\<close> compares. A nil
  \<open>os.FileInfo\<close> is \<open>None\<close>.
\<close>

record FileInfo =
  IsDir :: bool
  fileId :: nat
  Size :: nat
  ModTime :: int

text \<open>
  Everything the watcher asks of the operating system and of fsnotify at one moment:
  the result of \<open>os.Stat\<close> (\<open>None\<close> when it returns an error), of \<open>filepath.Abs\<close>, and
  whether \<open>fsnotify.NewWatcher\<close> and \<open>Watcher.Add\<close> return an error.
\<close>

record env =
  Stat :: "path \<Rightarrow> FileInfo option"
  Abs :: "path \<Rightarrow> path option"
  NewWatcherFails :: bool
  AddFails :: "path \<Rightarrow> bool"

definition SameFile :: "FileInfo option \<Rightarrow> FileInfo option \<Rightarrow> bool" where
  "SameFile fi1 fi2 =
     (case (fi1, fi2) of (Some a, Some b) \<Rightarrow> fileId a = fileId b | _ \<Rightarrow> False)"

definition isDirectory :: "env \<Rightarrow> path \<Rightarrow> bool" where
  "isDirectory e p = (case Stat e p of Some info \<Rightarrow> IsDir info | None \<Rightarrow> False)"

subsection \<open>fsnotify events\<close>

type_synonym Op = "32 word"

definition Create :: Op where "Create = 1"
definition Write :: Op where "Write = 2"
definition Remove :: Op where "Remove = 4"
definition Rename :: Op where "Rename = 8"
definition Chmod :: Op where "Chmod = 16"

record Event =
  Name :: path
  Op :: Op

subsection \<open>The watcher\<close>

datatype EventType = Created | Updated | Deleted

datatype error = ResolutionError | SubsystemError

text \<open>
  \<open>watches\<close> lists the directories registered with the fsnotify watcher, each once.
  \<open>updateCh\<close> lists the events sent on the update channel so far (the consumer is taken
  to receive each of them), \<open>updateChClosed\<close> that the channel has been closed.
\<close>

record FileWatcher =
  filename :: path
  fileInfo :: "FileInfo option"
  watches :: "path list"
  watcherClosed :: bool
  updateCh :: "EventType list"
  updateChClosed :: bool

definition NewFileWatcherWithContext :: "env \<Rightarrow> path \<Rightarrow> error + FileWatcher" where
  "NewFileWatcherWithContext e fname =
     (case Abs e fname of
        None \<Rightarrow> Inl ResolutionError
      | Some target \<Rightarrow>
          if NewWatcherFails e then Inl SubsystemError
          else Inr \<lparr>filename = target,
                    fileInfo = (case Stat e fname of
                                  Some info \<Rightarrow> if \<not> IsDir info then Some info else None
                                | None \<Rightarrow> None),
                    watches = [], watcherClosed = False,
                    updateCh = [], updateChClosed = False\<rparr>)"

definition watcher_Add :: "env \<Rightarrow> path \<Rightarrow> path list \<Rightarrow> path list option" where
  "watcher_Add e p ws = (if AddFails e p then None else Some (List.insert p ws))"

definition watcher_Remove :: "path \<Rightarrow> path list \<Rightarrow> path list" where
  "watcher_Remove p ws = removeAll p ws"

text \<open>
  The two loops over \<open>filepath.Dir\<close> have no bound in the source, so each is a partial
  function: \<open>None\<close> is a walk that never returns.
\<close>

partial_function (option) watchLocation_loop :: "env \<Rightarrow> path \<Rightarrow> path \<Rightarrow> (path \<times> path) option" where
  "watchLocation_loop e watchPath watchTarget =
     (if isDirectory e watchPath then Some (watchPath, watchTarget)
      else watchLocation_loop e (Dir watchPath) watchPath)"

declare watchLocation_loop.simps [code]

definition watchLocation :: "env \<Rightarrow> path \<Rightarrow> (path \<times> path) option" where
  "watchLocation e p = watchLocation_loop e p p"

partial_function (option) watchParents :: "env \<Rightarrow> path \<Rightarrow> path list \<Rightarrow> path list option" where
  "watchParents e p ws =
     (if Dir p = p then Some ws
      else watchParents e (Dir p)
             (case watcher_Add e (Dir p) ws of None \<Rightarrow> ws | Some ws' \<Rightarrow> ws'))"

declare watchParents.simps [code]

definition handleEvent :: "env \<Rightarrow> FileWatcher \<Rightarrow> FileWatcher" where
  "handleEvent e w = w\<lparr>fileInfo := Stat e (filename w), updateCh := updateCh w @ [Updated]\<rparr>"

definition handleCreateEvent :: "env \<Rightarrow> FileWatcher \<Rightarrow> FileWatcher" where
  "handleCreateEvent e w =
     (let newFileInfo = Stat e (filename w)
      in if newFileInfo \<noteq> None \<and> fileInfo w = None
         then w\<lparr>fileInfo := newFileInfo, updateCh := updateCh w @ [Created]\<rparr>
         else w)"

definition handleDeleteEvent :: "env \<Rightarrow> FileWatcher \<Rightarrow> FileWatcher" where
  "handleDeleteEvent e w =
     (let newFileInfo = Stat e (filename w)
      in if newFileInfo = None \<and> fileInfo w \<noteq> None
         then w\<lparr>fileInfo := None, updateCh := updateCh w @ [Deleted]\<rparr>
         else w)"

text \<open>
  The worker \<open>run\<close> is either at the top of its outer loop, or waiting in the \<open>select\<close>
  of the inner loop with its local variables \<open>path\<close>, \<open>target\<close> and \<open>targetStat\<close>, or
  has returned; \<open>Hung\<close> is a worker inside a walk that never returns. A schedule lists
  what the worker does in order, each with the answers of the operating system at that
  moment: \<open>Enter\<close> is one pass from the top of the outer loop to the \<open>select\<close>, the
  others are the cases of the \<open>select\<close>.
\<close>

datatype control = AtTop | Watching path path "FileInfo option" | Returned | Hung

datatype action = Enter | Notify Event | WatcherError | Done

definition leaveWatchloop :: "path \<Rightarrow> FileWatcher \<Rightarrow> control \<times> FileWatcher" where
  "leaveWatchloop p w = (AtTop, w\<lparr>watches := watcher_Remove p (watches w)\<rparr>)"

fun run_step :: "env \<Rightarrow> action \<Rightarrow> control \<times> FileWatcher \<Rightarrow> (control \<times> FileWatcher) option" where
  "run_step e Enter (AtTop, w) =
     (case watchLocation e (filename w) of
        None \<Rightarrow> Some (Hung, w)
      | Some (p, target) \<Rightarrow>
          let targetStat = Stat e target in
          (case watcher_Add e p (watches w) of
             None \<Rightarrow> Some (AtTop, w)
           | Some ws \<Rightarrow>
               (case watchParents e p ws of
                  None \<Rightarrow> Some (Hung, w\<lparr>watches := ws\<rparr>)
                | Some ws' \<Rightarrow> Some (Watching p target targetStat, w\<lparr>watches := ws'\<rparr>))))"
| "run_step e (Notify ev) (Watching p target targetStat, w) =
     (if Op ev AND Remove \<noteq> 0 then
        Some (leaveWatchloop p (handleDeleteEvent e w))
      else if Op ev AND Create \<noteq> 0 then
        (let w' = handleCreateEvent e w
         in if target \<noteq> filename w then Some (leaveWatchloop p w')
            else Some (Watching p target targetStat, w'))
      else
        (let evTargetStat = Stat e (Name ev)
         in if SameFile targetStat evTargetStat then
              (if target \<noteq> filename w then Some (leaveWatchloop p w)
               else Some (Watching p target targetStat, handleEvent e w))
            else Some (Watching p target targetStat, w)))"
| "run_step e WatcherError (Watching p target targetStat, w) = Some (leaveWatchloop p w)"
| "run_step e Done (Watching p target targetStat, w) =
     Some (Returned, w\<lparr>updateChClosed := True, watcherClosed := True\<rparr>)"
| "run_step e a cw = None"

fun run_loop :: "(env \<times> action) list \<Rightarrow> control \<times> FileWatcher \<Rightarrow> (control \<times> FileWatcher) option" where
  "run_loop [] cw = Some cw"
| "run_loop ((e, a) # rest) cw =
     (case run_step e a cw of None \<Rightarrow> None | Some cw' \<Rightarrow> run_loop rest cw')"

definition run :: "(env \<times> action) list \<Rightarrow> FileWatcher \<Rightarrow> (control \<times> FileWatcher) option" where
  "run sched w = run_loop sched (AtTop, w)"

section \<open>Notions used to state the properties\<close>

text \<open>The values a worker receives under a schedule, in the order of their arrival.\<close>

fun inputs :: "'a schedule \<Rightarrow> 'a list" where
  "inputs [] = []"
| "inputs ((now, Recv v) # es) = v # inputs es"
| "inputs ((now, InClosed) # es) = []"
| "inputs ((now, e) # es) = inputs es"

text \<open>
  The bursts of a schedule: the received values, cut at every timer tick, and at the
  closing of the input when values are left over. \<open>acc\<close> holds the values received
  since the last cut.
\<close>

fun bursts :: "'a list \<Rightarrow> 'a schedule \<Rightarrow> 'a list list" where
  "bursts acc [] = []"
| "bursts acc ((now, Recv v) # es) = bursts (acc @ [v]) es"
| "bursts acc ((now, InClosed) # es) = (if acc = [] then [] else [acc])"
| "bursts acc ((now, IntervalFired) # es) = acc # bursts [] es"
| "bursts acc ((now, MaxDelayFired) # es) = acc # bursts [] es"

fun isRecv :: "'a selected \<Rightarrow> bool" where
  "isRecv (Recv v) = True"
| "isRecv e = False"

fun isTick :: "'a selected \<Rightarrow> bool" where
  "isTick IntervalFired = True"
| "isTick MaxDelayFired = True"
| "isTick e = False"



text \<open>The last select case taken was a receive of a value, at instant \<open>t\<close>.\<close>

definition lastRecvAt :: "'a schedule \<Rightarrow> int \<Rightarrow> bool" where
  "lastRecvAt sched t = (sched \<noteq> [] \<and> fst (last sched) = t \<and> isRecv (snd (last sched)))"

text \<open>
  Invariants of the workers: while a deadline is armed the accumulator holds data, and
  everything emitted so far was a non-empty burst.
\<close>

definition grouped_inv :: "'a grouped \<Rightarrow> bool" where
  "grouped_inv s \<longleftrightarrow>
     ((armed (intervalTimer (g_t s)) \<or> armed (maxDelayTimer (g_t s))) \<longrightarrow> g_pending s \<noteq> [])
     \<and> (\<forall>l \<in> set (g_out s). l \<noteq> [])"

definition counted_inv :: "counted \<Rightarrow> bool" where
  "counted_inv s \<longleftrightarrow>
     ((armed (intervalTimer (c_t s)) \<or> armed (maxDelayTimer (c_t s))) \<longrightarrow> 1 \<le> c_count s)
     \<and> 0 \<le> c_count s \<and> (\<forall>n \<in> set (c_out s). 1 \<le> n)"

text \<open>
  What holds of the timers of a stage made with interval \<open>i\<close> and max delay \<open>m\<close>: the
  two durations never change, no max-delay timer exists when \<open>m = 0\<close>, and a max-delay
  timer that exists has not ticked yet.
\<close>

definition params :: "int \<Rightarrow> int \<Rightarrow> debounceTimers \<Rightarrow> bool" where
  "params i m t \<longleftrightarrow> interval t = i \<and> maxDelay t = m \<and> (m = 0 \<longrightarrow> maxDelayTimer t = None)
      \<and> (maxDelayTimer t \<noteq> None \<longrightarrow> armed (maxDelayTimer t))"




text \<open>Paths: the root, and the ancestor of a path made of its first \<open>n\<close> elements.\<close>

definition root :: path where
  "root = Path True []"

definition upTo :: "path \<Rightarrow> nat \<Rightarrow> path" where
  "upTo p n = Path (isAbs p) (take n (elems p))"

text \<open>
  Example file trees, used to run the watcher on concrete inputs. In all of them \<open>/\<close>
  and \<open>/d\<close> are directories and nothing else exists, except that \<open>/d/f\<close> is an empty
  regular file in \<open>treeWithFile\<close> and the same file with four bytes in
  \<open>treeWithFileWritten\<close>.
\<close>

definition dirInfo :: "nat \<Rightarrow> FileInfo" where
  "dirInfo n = \<lparr>IsDir = True, fileId = n, Size = 0, ModTime = 0\<rparr>"

definition regInfo :: "nat \<Rightarrow> nat \<Rightarrow> int \<Rightarrow> FileInfo" where
  "regInfo n sz t = \<lparr>IsDir = False, fileId = n, Size = sz, ModTime = t\<rparr>"

definition osWith :: "(path \<Rightarrow> FileInfo option) \<Rightarrow> env" where
  "osWith st = \<lparr>Stat = st, Abs = Some, NewWatcherFails = False, AddFails = (\<lambda>p. False)\<rparr>"

definition emptyTree :: env where
  "emptyTree = osWith (\<lambda>p. if p = Path True [] then Some (dirInfo 1)
                           else if p = Path True [''d''] then Some (dirInfo 2)
                           else None)"

definition treeWithFile :: env where
  "treeWithFile = osWith (\<lambda>p. if p = Path True [] then Some (dirInfo 1)
                              else if p = Path True [''d''] then Some (dirInfo 2)
                              else if p = Path True [''d'', ''f''] then Some (regInfo 3 0 10)
                              else None)"

definition treeWithFileWritten :: env where
  "treeWithFileWritten = osWith (\<lambda>p. if p = Path True [] then Some (dirInfo 1)
                              else if p = Path True [''d''] then Some (dirInfo 2)
                              else if p = Path True [''d'', ''f''] then Some (regInfo 3 4 20)
                              else None)"

text \<open>
  What a result \<open>r\<close> of the upward walk has to satisfy when the walk, started for the
  target \<open>p\<close>, has come down to the first \<open>k\<close> elements of \<open>p\<close>.
\<close>

definition resolved :: "env \<Rightarrow> path \<Rightarrow> nat \<Rightarrow> path \<times> path \<Rightarrow> bool" where
  "resolved e p k r \<longleftrightarrow>
     isDirectory e (fst r) \<and>
     (\<exists>n \<le> k. fst r = upTo p n \<and> snd r = upTo p (Suc n) \<and>
        (\<forall>j. n < j \<and> j \<le> length (elems p) \<longrightarrow> \<not> isDirectory e (upTo p j)))"



text \<open>What one step of the worker may add to the update channel.\<close>

definition emits :: "env \<Rightarrow> FileWatcher \<Rightarrow> FileWatcher \<Rightarrow> EventType list \<Rightarrow> bool" where
  "emits e w w' evs \<longleftrightarrow>
     updateCh w' = updateCh w @ evs \<and> length evs \<le> 1 \<and> filename w' = filename w \<and>
     (Created \<in> set evs \<longrightarrow>
        fileInfo w = None \<and> fileInfo w' \<noteq> None \<and> Stat e (filename w) \<noteq> None) \<and>
     (Deleted \<in> set evs \<longrightarrow>
        fileInfo w \<noteq> None \<and> fileInfo w' = None \<and> Stat e (filename w) = None) \<and>
     (evs = [] \<longrightarrow> fileInfo w' = fileInfo w)"

section \<open>Properties of package debounce\<close>

subsection \<open>Timer operations, field by field\<close>

lemma ready_armed: "ready now tm \<Longrightarrow> armed tm"
  by (cases tm rule: armed.cases) auto

lemma armed_takeTick [simp]: "\<not> armed (takeTick tm)"
  by (cases tm rule: takeTick.cases) auto

lemma clearInterval_simps [simp]:
  "intervalTimer (clearInterval t) = None"
  "maxDelayTimer (clearInterval t) = maxDelayTimer t"
  "interval (clearInterval t) = interval t"
  "maxDelay (clearInterval t) = maxDelay t"
  by (simp_all add: clearInterval_def)

lemma clearMaxDelay_simps [simp]:
  "maxDelayTimer (clearMaxDelay t) = None"
  "intervalTimer (clearMaxDelay t) = intervalTimer t"
  "interval (clearMaxDelay t) = interval t"
  "maxDelay (clearMaxDelay t) = maxDelay t"
  by (simp_all add: clearMaxDelay_def)

lemma resetInterval_simps [simp]:
  "intervalTimer (resetInterval now t) = Some (Timer (now + interval t) False)"
  "maxDelayTimer (resetInterval now t) = maxDelayTimer t"
  "interval (resetInterval now t) = interval t"
  "maxDelay (resetInterval now t) = maxDelay t"
  by (simp_all add: resetInterval_def)

lemma setMaxDelay_simps [simp]:
  "maxDelayTimer (setMaxDelay now t) =
     (if maxDelayTimer t = None \<and> maxDelay t \<noteq> 0
      then Some (Timer (now + maxDelay t) False) else maxDelayTimer t)"
  "intervalTimer (setMaxDelay now t) = intervalTimer t"
  "interval (setMaxDelay now t) = interval t"
  "maxDelay (setMaxDelay now t) = maxDelay t"
  by (simp_all add: setMaxDelay_def)

lemma takeInterval_simps [simp]:
  "intervalTimer (takeInterval t) = takeTick (intervalTimer t)"
  "maxDelayTimer (takeInterval t) = maxDelayTimer t"
  "interval (takeInterval t) = interval t"
  "maxDelay (takeInterval t) = maxDelay t"
  by (simp_all add: takeInterval_def)

lemma takeMaxDelay_simps [simp]:
  "maxDelayTimer (takeMaxDelay t) = takeTick (maxDelayTimer t)"
  "intervalTimer (takeMaxDelay t) = intervalTimer t"
  "interval (takeMaxDelay t) = interval t"
  "maxDelay (takeMaxDelay t) = maxDelay t"
  by (simp_all add: takeMaxDelay_def)

lemma newTimers_simps [simp]:
  "intervalTimer (newTimers i m) = None"
  "maxDelayTimer (newTimers i m) = None"
  "interval (newTimers i m) = i"
  "maxDelay (newTimers i m) = m"
  by (simp_all add: newTimers_def)


subsection \<open>Case analysis of one loop iteration\<close>

lemma grouped_step_cases [consumes 1, case_names Recv InClosed IntervalFired MaxDelayFired]:
  assumes "grouped_step now e s = Some s'"
  obtains
    (Recv) v where "e = Recv v" and "\<not> g_closed s" and
      "s' = s\<lparr>g_pending := g_pending s @ [v],
               g_t := setMaxDelay now (resetInterval now (clearInterval (g_t s)))\<rparr>"
  | (InClosed) "e = InClosed" and "\<not> g_closed s" and
      "s' = grouped_finish (s\<lparr>g_t := clearInterval (clearInterval (g_t s))\<rparr>)"
  | (IntervalFired) "e = IntervalFired" and "\<not> g_closed s" and
      "ready now (intervalTimer (g_t s))" and
      "s' = s\<lparr>g_out := g_out s @ [g_pending s], g_pending := [],
               g_t := clearMaxDelay (takeInterval (g_t s))\<rparr>"
  | (MaxDelayFired) "e = MaxDelayFired" and "\<not> g_closed s" and
      "ready now (maxDelayTimer (g_t s))" and
      "s' = s\<lparr>g_out := g_out s @ [g_pending s], g_pending := [],
               g_t := clearInterval (clearMaxDelay (takeMaxDelay (g_t s)))\<rparr>"
  using assms by (cases e) (simp_all split: if_splits)

lemma signal_step_cases [consumes 1, case_names Recv InClosed IntervalFired MaxDelayFired]:
  assumes "signal_step now e s = Some s'"
  obtains
    (Recv) "e = Recv ()" and "\<not> s_closed s" and
      "s' = s\<lparr>s_pending := True,
               s_t := setMaxDelay now (resetInterval now (clearInterval (s_t s)))\<rparr>"
  | (InClosed) "e = InClosed" and "\<not> s_closed s" and
      "s' = signal_finish (s\<lparr>s_t := clearInterval (clearInterval (s_t s))\<rparr>)"
  | (IntervalFired) "e = IntervalFired" and "\<not> s_closed s" and
      "ready now (intervalTimer (s_t s))" and
      "s' = s\<lparr>s_out := s_out s @ [()], s_pending := False,
               s_t := clearMaxDelay (takeInterval (s_t s))\<rparr>"
  | (MaxDelayFired) "e = MaxDelayFired" and "\<not> s_closed s" and
      "ready now (maxDelayTimer (s_t s))" and
      "s' = (if s_pending s then s\<lparr>s_out := s_out s @ [()], s_pending := False\<rparr> else s)
              \<lparr>s_t := clearInterval (clearMaxDelay (takeMaxDelay (s_t s)))\<rparr>"
  using assms by (cases e) (simp_all add: Let_def split: if_splits)


lemma counted_step_cases [consumes 1, case_names Recv InClosed IntervalFired MaxDelayFired]:
  assumes "counted_step now e s = Some s'"
  obtains
    (Recv) "e = Recv ()" and "\<not> c_closed s" and
      "s' = s\<lparr>c_count := c_count s + 1,
               c_t := setMaxDelay now (resetInterval now (clearInterval (c_t s)))\<rparr>"
  | (InClosed) "e = InClosed" and "\<not> c_closed s" and
      "s' = counted_finish (s\<lparr>c_t := clearInterval (clearInterval (c_t s))\<rparr>)"
  | (IntervalFired) "e = IntervalFired" and "\<not> c_closed s" and
      "ready now (intervalTimer (c_t s))" and
      "s' = s\<lparr>c_out := c_out s @ [c_count s], c_count := 0,
               c_t := clearMaxDelay (takeInterval (c_t s))\<rparr>"
  | (MaxDelayFired) "e = MaxDelayFired" and "\<not> c_closed s" and
      "ready now (maxDelayTimer (c_t s))" and
      "s' = s\<lparr>c_out := c_out s @ [c_count s], c_count := 0,
               c_t := clearInterval (clearMaxDelay (takeMaxDelay (c_t s)))\<rparr>"
  using assms by (cases e) (simp_all split: if_splits)

subsection \<open>What the code after the loop does\<close>

lemma grouped_finish_simps [simp]:
  "g_pending (grouped_finish s) = g_pending s"
  "g_t (grouped_finish s) = g_t s"
  "g_closed (grouped_finish s) = True"
  "g_out (grouped_finish s) = g_out s @ (if g_pending s \<noteq> [] then [g_pending s] else [])"
  by (simp_all add: grouped_finish_def)

lemma signal_finish_simps [simp]:
  "s_pending (signal_finish s) = s_pending s"
  "s_t (signal_finish s) = s_t s"
  "s_closed (signal_finish s) = True"
  "s_out (signal_finish s) = s_out s @ (if s_pending s then [()] else [])"
  by (simp_all add: signal_finish_def)

lemma last_finish_simps [simp]:
  "l_last (last_finish s) = l_last s"
  "l_t (last_finish s) = l_t s"
  "l_closed (last_finish s) = True"
  "l_out (last_finish s) = l_out s @ (if l_last s \<noteq> None then [l_last s] else [])"
  by (simp_all add: last_finish_def)

lemma counted_finish_simps [simp]:
  "c_count (counted_finish s) = c_count s"
  "c_t (counted_finish s) = c_t s"
  "c_closed (counted_finish s) = True"
  "c_out (counted_finish s) = c_out s @ (if c_count s \<noteq> 0 then [c_count s] else [])"
  by (simp_all add: counted_finish_def)

subsection \<open>Running a schedule in two parts\<close>

lemma grouped_loop_append:
  "grouped_loop (xs @ ys) s =
     (case grouped_loop xs s of None \<Rightarrow> None | Some s' \<Rightarrow> grouped_loop ys s')"
  by (induction xs arbitrary: s) (auto split: option.splits)

lemma signal_loop_append:
  "signal_loop (xs @ ys) s =
     (case signal_loop xs s of None \<Rightarrow> None | Some s' \<Rightarrow> signal_loop ys s')"
  by (induction xs arbitrary: s) (auto split: option.splits)


lemma counted_loop_append:
  "counted_loop (xs @ ys) s =
     (case counted_loop xs s of None \<Rightarrow> None | Some s' \<Rightarrow> counted_loop ys s')"
  by (induction xs arbitrary: s) (auto split: option.splits)

lemma grouped_loop_snoc:
  "grouped_loop (xs @ [(now, e)]) s = Some s' \<longleftrightarrow>
     (\<exists>s1. grouped_loop xs s = Some s1 \<and> grouped_step now e s1 = Some s')"
  by (auto simp: grouped_loop_append split: option.splits)

lemma signal_loop_snoc:
  "signal_loop (xs @ [(now, e)]) s = Some s' \<longleftrightarrow>
     (\<exists>s1. signal_loop xs s = Some s1 \<and> signal_step now e s1 = Some s')"
  by (auto simp: signal_loop_append split: option.splits)


lemma counted_loop_snoc:
  "counted_loop (xs @ [(now, e)]) s = Some s' \<longleftrightarrow>
     (\<exists>s1. counted_loop xs s = Some s1 \<and> counted_step now e s1 = Some s')"
  by (auto simp: counted_loop_append split: option.splits)

subsection \<open>Armed deadlines and pending data\<close>

lemma grouped_step_inv:
  assumes "grouped_step now e s = Some s'" and "grouped_inv s"
  shows "grouped_inv s'"
  using assms
  by (cases rule: grouped_step_cases) (auto simp: grouped_inv_def dest: ready_armed)

lemma grouped_loop_inv:
  "grouped_loop sched s = Some s' \<Longrightarrow> grouped_inv s \<Longrightarrow> grouped_inv s'"
proof (induction sched arbitrary: s)
  case Nil
  then show ?case by simp
next
  case (Cons x xs)
  obtain now e where x: "x = (now, e)" by (cases x)
  from Cons.prems(1) x obtain s1 where
    s1: "grouped_step now e s = Some s1" and rest: "grouped_loop xs s1 = Some s'"
    by (auto split: option.splits)
  from grouped_step_inv [OF s1 Cons.prems(2)] Cons.IH rest show ?case by blast
qed

lemma NewGrouped_inv: "NewGrouped i m sched = Some s \<Longrightarrow> grouped_inv s"
  unfolding NewGrouped_def
  by (erule grouped_loop_inv) (simp add: grouped_inv_def grouped_init_def)

lemma counted_step_inv:
  assumes "counted_step now e s = Some s'" and "counted_inv s"
  shows "counted_inv s'"
  using assms
  by (cases rule: counted_step_cases) (auto simp: counted_inv_def dest: ready_armed)

lemma counted_loop_inv:
  "counted_loop sched s = Some s' \<Longrightarrow> counted_inv s \<Longrightarrow> counted_inv s'"
proof (induction sched arbitrary: s)
  case Nil
  then show ?case by simp
next
  case (Cons x xs)
  obtain now e where x: "x = (now, e)" by (cases x)
  from Cons.prems(1) x obtain s1 where
    s1: "counted_step now e s = Some s1" and rest: "counted_loop xs s1 = Some s'"
    by (auto split: option.splits)
  from counted_step_inv [OF s1 Cons.prems(2)] Cons.IH rest show ?case by blast
qed

lemma NewCounted_inv: "NewCounted i m sched = Some s \<Longrightarrow> counted_inv s"
  unfolding NewCounted_def
  by (erule counted_loop_inv) (simp add: counted_inv_def counted_init_def)

lemma grouped_armed_lastRecv:
  assumes "NewGrouped i m sched = Some s" and "\<not> g_closed s"
    and "armed (intervalTimer (g_t s)) \<or> armed (maxDelayTimer (g_t s))"
  shows "\<exists>t. lastRecvAt sched t"
proof (cases sched rule: rev_cases)
  case Nil
  with assms show ?thesis by (auto simp: NewGrouped_def grouped_init_def)
next
  case (snoc xs x)
  obtain now e where x: "x = (now, e)" by (cases x)
  from assms(1) snoc x obtain s1 where "grouped_step now e s1 = Some s"
    by (auto simp: NewGrouped_def grouped_loop_snoc)
  then have "isRecv e" using assms(2,3)
    by (cases rule: grouped_step_cases) auto
  with snoc x show ?thesis by (simp add: lastRecvAt_def)
qed

lemma counted_armed_lastRecv:
  assumes "NewCounted i m sched = Some s" and "\<not> c_closed s"
    and "armed (intervalTimer (c_t s)) \<or> armed (maxDelayTimer (c_t s))"
  shows "\<exists>t. lastRecvAt sched t"
proof (cases sched rule: rev_cases)
  case Nil
  with assms show ?thesis by (auto simp: NewCounted_def counted_init_def)
next
  case (snoc xs x)
  obtain now e where x: "x = (now, e)" by (cases x)
  from assms(1) snoc x obtain s1 where "counted_step now e s1 = Some s"
    by (auto simp: NewCounted_def counted_loop_snoc)
  then have "isRecv e" using assms(2,3)
    by (cases rule: counted_step_cases) auto
  with snoc x show ?thesis by (simp add: lastRecvAt_def)
qed

subsection \<open>Invariants along a schedule\<close>

lemma signal_loop_invariant:
  assumes "signal_loop sched s = Some s'" and "P s"
    and "\<And>now e s s'. signal_step now e s = Some s' \<Longrightarrow> P s \<Longrightarrow> P s'"
  shows "P s'"
  using assms(1,2)
proof (induction sched arbitrary: s)
  case Nil
  then show ?case by simp
next
  case (Cons x xs)
  obtain now e where x: "x = (now, e)" by (cases x)
  from Cons.prems(1) x obtain s1 where
    s1: "signal_step now e s = Some s1" and rest: "signal_loop xs s1 = Some s'"
    by (auto split: option.splits)
  from assms(3) [OF s1 Cons.prems(2)] Cons.IH rest show ?case by blast
qed




lemma params_new: "params i m (newTimers i m)"
  by (simp add: params_def)

lemma params_ops:
  "params i m t \<Longrightarrow> params i m (setMaxDelay now (resetInterval now (clearInterval t)))"
  "params i m t \<Longrightarrow> params i m (clearInterval (clearInterval t))"
  "params i m t \<Longrightarrow> params i m (clearMaxDelay (takeInterval t))"
  "params i m t \<Longrightarrow> params i m (clearInterval (clearMaxDelay (takeMaxDelay t)))"
  by (auto simp: params_def)

lemma New_params: "New i m sched = Some s \<Longrightarrow> params i m (s_t s)"
  unfolding New_def
proof (erule signal_loop_invariant)
  show "params i m (s_t (signal_init i m))" by (simp add: signal_init_def params_new)
next
  fix now e s s' assume "signal_step now e s = Some s'" and "params i m (s_t s)"
  then show "params i m (s_t s')" by (cases rule: signal_step_cases) (auto simp: params_ops)
qed




subsection \<open>Emitted bursts are never empty\<close>

text \<open>
  Claim C10. Every list emitted by the Grouped variant is non-empty and every count
  emitted by the Counted variant is at least 1. Whenever the interval deadline or the
  max-delay deadline is armed, the accumulator holds at least one element; and a
  running worker has a deadline armed only when the last thing it did was to receive a
  value, since only a receive arms a deadline and every flush clears both.
\<close>

theorem emitted_groups_nonempty_counts_positive:
  "(NewGrouped i m sched = Some g \<longrightarrow>
      (\<forall>l \<in> set (g_out g). l \<noteq> []) \<and>
      (armed (intervalTimer (g_t g)) \<or> armed (maxDelayTimer (g_t g)) \<longrightarrow>
         g_pending g \<noteq> [] \<and> (\<not> g_closed g \<longrightarrow> (\<exists>t. lastRecvAt sched t))))
   \<and> (NewCounted i' m' sched' = Some c \<longrightarrow>
      (\<forall>n \<in> set (c_out c). 1 \<le> n) \<and>
      (armed (intervalTimer (c_t c)) \<or> armed (maxDelayTimer (c_t c)) \<longrightarrow>
         1 \<le> c_count c \<and> (\<not> c_closed c \<longrightarrow> (\<exists>t. lastRecvAt sched' t))))"
proof (intro conjI impI)
  assume g: "NewGrouped i m sched = Some g"
  from NewGrouped_inv [OF g] show "\<forall>l \<in> set (g_out g). l \<noteq> []"
    by (simp add: grouped_inv_def)
  assume a: "armed (intervalTimer (g_t g)) \<or> armed (maxDelayTimer (g_t g))"
  from NewGrouped_inv [OF g] a show "g_pending g \<noteq> []"
    by (simp add: grouped_inv_def)
  assume "\<not> g_closed g"
  then show "\<exists>t. lastRecvAt sched t" using a by (intro grouped_armed_lastRecv [OF g])
next
  assume c: "NewCounted i' m' sched' = Some c"
  from NewCounted_inv [OF c] show "\<forall>n \<in> set (c_out c). 1 \<le> n"
    by (simp add: counted_inv_def)
  assume a: "armed (intervalTimer (c_t c)) \<or> armed (maxDelayTimer (c_t c))"
  from NewCounted_inv [OF c] a show "1 \<le> c_count c"
    by (simp add: counted_inv_def)
  assume "\<not> c_closed c"
  then show "\<exists>t. lastRecvAt sched' t" using a by (intro counted_armed_lastRecv [OF c])
qed

theorem emitted_groups_nonempty_counts_positive_witness:
  "NewGrouped 2 20 [(0, Recv (1::nat)), (1, Recv 2), (20, MaxDelayFired), (21, Recv 3),
                    (23, IntervalFired), (24, Recv 4)] =
     Some \<lparr>g_pending = [4],
           g_t = \<lparr>interval = 2, maxDelay = 20, intervalTimer = Some (Timer 26 False),
                  maxDelayTimer = Some (Timer 44 False)\<rparr>,
           g_out = [ [1, 2], [3]], g_closed = False\<rparr>
   \<and> NewCounted 2 20 [(0, Recv ()), (1, Recv ()), (20, MaxDelayFired), (21, Recv ()),
                      (23, IntervalFired), (24, Recv ())] =
     Some \<lparr>c_count = 1,
           c_t = \<lparr>interval = 2, maxDelay = 20, intervalTimer = Some (Timer 26 False),
                  maxDelayTimer = Some (Timer 44 False)\<rparr>,
           c_out = [2, 1], c_closed = False\<rparr>
   \<and> [] \<notin> set [ [1, 2], [3::nat]] \<and> [4::nat] \<noteq> []
   \<and> (\<exists>t. lastRecvAt [(0, Recv (1::nat)), (1, Recv 2), (20, MaxDelayFired), (21, Recv 3),
                         (23, IntervalFired), (24, Recv 4)] t)
   \<and> (\<exists>t. lastRecvAt [(0, Recv ()), (1, Recv ()), (20, MaxDelayFired), (21, Recv ()),
                        (23, IntervalFired), (24, Recv ())] t)"
proof -
  let ?gs = "[(0, Recv (1::nat)), (1, Recv 2), (20, MaxDelayFired), (21, Recv 3),
              (23, IntervalFired), (24, Recv 4)]"
  let ?cs = "[(0, Recv ()), (1, Recv ()), (20, MaxDelayFired), (21, Recv ()),
              (23, IntervalFired), (24, Recv ())]"
  let ?t = "\<lparr>interval = 2, maxDelay = 20, intervalTimer = Some (Timer 26 False),
             maxDelayTimer = Some (Timer 44 False)\<rparr>"
  let ?g = "\<lparr>g_pending = [4::nat], g_t = ?t, g_out = [ [1, 2], [3]], g_closed = False\<rparr>"
  let ?c = "\<lparr>c_count = 1, c_t = ?t, c_out = [2, 1], c_closed = False\<rparr>"
  have g: "NewGrouped 2 20 ?gs = Some ?g" by code_simp
  have c: "NewCounted 2 20 ?cs = Some ?c" by code_simp
  from emitted_groups_nonempty_counts_positive [of 2 20 ?gs ?g 2 20 ?cs ?c] g c
  show ?thesis by simp
qed

subsection \<open>The Grouped variant emits the bursts\<close>

lemma grouped_loop_closed:
  "g_closed s \<Longrightarrow> grouped_loop es s = Some s' \<Longrightarrow> es = [] \<and> s' = s"
  by (cases es) (auto split: option.splits elim: grouped_step_cases)

lemma grouped_loop_bursts:
  "grouped_loop sched s = Some s' \<Longrightarrow> g_out s' = g_out s @ bursts (g_pending s) sched"
proof (induction sched arbitrary: s)
  case Nil
  then show ?case by simp
next
  case (Cons x xs)
  obtain now e where x: "x = (now, e)" by (cases x)
  from Cons.prems x obtain s1 where
    s1: "grouped_step now e s = Some s1" and rest: "grouped_loop xs s1 = Some s'"
    by (auto split: option.splits)
  from s1 show ?case
  proof (cases rule: grouped_step_cases)
    case InClosed
    then have "g_closed s1" by simp
    from grouped_loop_closed [OF this rest] InClosed x show ?thesis by simp
  qed (use Cons.IH [OF rest] x in simp_all)
qed

lemma grouped_loop_received:
  "grouped_loop sched s = Some s' \<Longrightarrow> \<not> g_closed s \<Longrightarrow>
     concat (g_out s') @ (if g_closed s' then [] else g_pending s') =
     concat (g_out s) @ g_pending s @ inputs sched"
proof (induction sched arbitrary: s)
  case Nil
  then show ?case by simp
next
  case (Cons x xs)
  obtain now e where x: "x = (now, e)" by (cases x)
  from Cons.prems x obtain s1 where
    s1: "grouped_step now e s = Some s1" and rest: "grouped_loop xs s1 = Some s'"
    by (auto split: option.splits)
  from s1 show ?case
  proof (cases rule: grouped_step_cases)
    case InClosed
    then have "g_closed s1" by simp
    from grouped_loop_closed [OF this rest] InClosed x show ?thesis by simp
  qed (use Cons.IH [OF rest] x in simp_all)
qed

lemma grouped_tick_resets:
  assumes "NewGrouped i m sched = Some s" and "sched \<noteq> []" and "isTick (snd (last sched))"
  shows "g_pending s = [] \<and>
         (\<exists>s0. NewGrouped i m (butlast sched) = Some s0 \<and> g_out s = g_out s0 @ [g_pending s0])"
proof -
  from assms(2) obtain xs now e where sched: "sched = xs @ [(now, e)]"
    by (cases sched rule: rev_cases) auto
  from assms(1) sched obtain s0 where
    s0: "grouped_loop xs (grouped_init i m) = Some s0" and st: "grouped_step now e s0 = Some s"
    by (auto simp: NewGrouped_def grouped_loop_snoc)
  from assms(3) sched have "isTick e" by simp
  with st have "g_pending s = [] \<and> g_out s = g_out s0 @ [g_pending s0]"
    by (cases rule: grouped_step_cases) auto
  with s0 sched show ?thesis by (simp add: NewGrouped_def)
qed

text \<open>
  Claim C6. Under every schedule, the values emitted by the Grouped variant are the
  bursts of the schedule: each emitted list holds the values received since the flush
  before it, in the order of their arrival. Nothing is lost, repeated or reordered: the
  emitted lists, followed by what is still pending, are the received values. A flush
  on a timer tick emits the accumulator as it was and leaves it empty.
\<close>

theorem grouped_emits_bursts_in_order:
  assumes "NewGrouped i m sched = Some s"
  shows "g_out s = bursts [] sched
       \<and> concat (g_out s) @ (if g_closed s then [] else g_pending s) = inputs sched
       \<and> (sched \<noteq> [] \<and> isTick (snd (last sched)) \<longrightarrow>
            g_pending s = [] \<and>
            (\<exists>s0. NewGrouped i m (butlast sched) = Some s0 \<and>
                  g_out s = g_out s0 @ [g_pending s0]))"
proof (intro conjI impI)
  from assms show "g_out s = bursts [] sched"
    by (simp add: NewGrouped_def grouped_loop_bursts grouped_init_def)
  from assms
  show "concat (g_out s) @ (if g_closed s then [] else g_pending s) = inputs sched"
    using grouped_loop_received [of sched "grouped_init i m" s]
    by (simp add: NewGrouped_def grouped_init_def)
  assume "sched \<noteq> [] \<and> isTick (snd (last sched))"
  then show "g_pending s = []"
    and "\<exists>s0. NewGrouped i m (butlast sched) = Some s0 \<and> g_out s = g_out s0 @ [g_pending s0]"
    using grouped_tick_resets [OF assms] by simp_all
qed

theorem grouped_emits_bursts_in_order_witness:
  "NewGrouped 2 20 [(0, Recv (1::nat)), (1, Recv 2), (20, MaxDelayFired), (21, Recv 3),
                    (23, IntervalFired)] =
     Some \<lparr>g_pending = [],
           g_t = \<lparr>interval = 2, maxDelay = 20, intervalTimer = Some (Timer 23 True),
                  maxDelayTimer = None\<rparr>,
           g_out = [ [1, 2], [3]], g_closed = False\<rparr>
   \<and> [ [1, 2], [3::nat]] =
       bursts [] [(0, Recv (1::nat)), (1, Recv 2), (20, MaxDelayFired), (21, Recv 3),
                  (23, IntervalFired)]
   \<and> [1, 2, 3::nat] =
       inputs [(0, Recv (1::nat)), (1, Recv 2), (20, MaxDelayFired), (21, Recv 3),
               (23, IntervalFired)]
   \<and> (\<exists>s0. NewGrouped 2 20 [(0, Recv (1::nat)), (1, Recv 2), (20, MaxDelayFired),
                             (21, Recv 3)] = Some s0
           \<and> [ [1, 2], [3::nat]] = g_out s0 @ [g_pending s0])"
proof -
  let ?sched = "[(0, Recv (1::nat)), (1, Recv 2), (20, MaxDelayFired), (21, Recv 3),
                 (23, IntervalFired)]"
  let ?s = "\<lparr>g_pending = [],
            g_t = \<lparr>interval = 2, maxDelay = 20, intervalTimer = Some (Timer 23 True),
                   maxDelayTimer = None\<rparr>,
            g_out = [ [1, 2], [3::nat]], g_closed = False\<rparr>"
  have run: "NewGrouped 2 20 ?sched = Some ?s" by code_simp
  from grouped_emits_bursts_in_order [OF run] run show ?thesis by simp
qed

subsection \<open>Closing the input\<close>












subsection \<open>Stages without a max delay\<close>


lemma ready_takeTick [simp]: "\<not> ready now (takeTick tm)"
  by (cases tm rule: takeTick.cases) auto

lemma ready_None [simp]: "\<not> ready now None"
  by simp














subsection \<open>The max-delay deadline\<close>





lemma New_idle:
  assumes "New i m sched = Some s" and "m \<noteq> 0" and "\<not> s_closed s"
    and "maxDelayTimer (s_t s) = None"
  shows "\<not> s_pending s"
proof (cases sched rule: rev_cases)
  case Nil
  with assms show ?thesis by (auto simp: New_def signal_init_def)
next
  case (snoc xs x)
  obtain t e where x: "x = (t, e)" by (cases x)
  from assms(1) snoc x obtain s1 where
    s1: "New i m xs = Some s1" and st: "signal_step t e s1 = Some s"
    by (auto simp: New_def signal_loop_snoc)
  from New_params [OF s1] assms(2) have "maxDelay (s_t s1) \<noteq> 0" by (simp add: params_def)
  with st assms(3,4) show ?thesis
    by (cases rule: signal_step_cases) (auto split: if_splits)
qed


















subsection \<open>The four variants side by side\<close>












section \<open>Properties of package watch\<close>

subsection \<open>The walks over the ancestors of a path\<close>

lemma Dir_Path [simp]: "Dir (Path a es) = Path a (butlast es)"
  by (simp add: Dir_def)

lemma butlast_fixed: "butlast es = es \<longleftrightarrow> es = []"
  by (cases es rule: rev_cases) auto

lemma Dir_fixed: "Dir p = p \<longleftrightarrow> elems p = []"
  by (cases p) (simp add: Dir_def butlast_fixed)

lemma upTo_all [simp]: "length (elems p) \<le> n \<Longrightarrow> upTo p n = p"
  by (cases p) (simp add: upTo_def)

lemma Dir_upTo: "k \<le> length (elems p) \<Longrightarrow> Dir (upTo p k) = upTo p (k - 1)"
  by (simp add: upTo_def butlast_take)

lemma watchLocation_loop_terminates:
  assumes "isDirectory e (Path a [])"
  shows "\<exists>r. watchLocation_loop e (Path a es) t = Some r \<and> isDirectory e (fst r)"
proof (induction es arbitrary: t rule: rev_induct)
  case Nil
  from assms show ?case by (subst watchLocation_loop.simps) simp
next
  case (snoc x xs)
  show ?case
  proof (cases "isDirectory e (Path a (xs @ [x]))")
    case True
    then show ?thesis by (subst watchLocation_loop.simps) simp
  next
    case False
    with snoc [of "Path a (xs @ [x])"] show ?thesis
      by (subst watchLocation_loop.simps) simp
  qed
qed

lemma watchParents_terminates: "\<exists>ws'. watchParents e (Path a es) ws = Some ws'"
proof (induction es arbitrary: ws rule: rev_induct)
  case Nil
  show ?case by (subst watchParents.simps) simp
next
  case (snoc x xs)
  have "Dir (Path a (xs @ [x])) \<noteq> Path a (xs @ [x])" by simp
  with snoc show ?case by (subst watchParents.simps) (simp del: Dir_Path, simp)
qed

text \<open>
  Claim C8. For every absolute watch target, when the root of the file system is a
  directory, the upward walk of \<open>watchLocation\<close> returns, and what it returns as the
  directory to watch is an existing directory. The walk of \<open>watchParents\<close> over the
  ancestors returns for every path.
\<close>

theorem location_walks_terminate:
  "(isAbs p \<and> isDirectory e root \<longrightarrow>
      (\<exists>anchorDir expectedChild.
         watchLocation e p = Some (anchorDir, expectedChild) \<and> isDirectory e anchorDir))
   \<and> (\<exists>ws'. watchParents e q ws = Some ws')"
proof (intro conjI impI)
  assume "isAbs p \<and> isDirectory e root"
  then have "isDirectory e (Path True [])" and p: "p = Path True (elems p)"
    by (simp_all add: root_def) (cases p, simp)
  from watchLocation_loop_terminates [OF this(1), of "elems p" p] p
  show "\<exists>anchorDir expectedChild.
         watchLocation e p = Some (anchorDir, expectedChild) \<and> isDirectory e anchorDir"
    by (auto simp: watchLocation_def)
next
  from watchParents_terminates [of e "isAbs q" "elems q" ws]
  show "\<exists>ws'. watchParents e q ws = Some ws'" by simp
qed

theorem location_walks_terminate_witness:
  "isAbs (Path True [''d'', ''x'', ''f'']) \<and> isDirectory emptyTree root
   \<and> watchLocation emptyTree (Path True [''d'', ''x'', ''f'']) =
       Some (Path True [''d''], Path True [''d'', ''x''])
   \<and> isDirectory emptyTree (Path True [''d''])
   \<and> watchParents emptyTree (Path True [''d'']) [] = Some [Path True []]"
proof -
  have "isAbs (Path True [''d'', ''x'', ''f''])" by simp
  moreover have "isDirectory emptyTree root" by code_simp
  moreover have "watchLocation emptyTree (Path True [''d'', ''x'', ''f'']) =
       Some (Path True [''d''], Path True [''d'', ''x''])" by code_simp
  moreover have "watchParents emptyTree (Path True [''d'']) [] = Some [Path True []]"
    by code_simp
  ultimately show ?thesis
    using location_walks_terminate
            [of "Path True [''d'', ''x'', ''f'']" emptyTree "Path True [''d'']" "[]"]
    by simp
qed

lemma resolved_mono: "resolved e p k' r \<Longrightarrow> k' \<le> k \<Longrightarrow> resolved e p k r"
  unfolding resolved_def by (meson order_trans)

lemma watchLocation_loop_resolved:
  assumes "watchLocation_loop e wp wt = Some r"
  shows "\<forall>p k. wp = upTo p k \<and> wt = upTo p (Suc k) \<and> k \<le> length (elems p) \<and>
           (\<forall>j. k < j \<and> j \<le> length (elems p) \<longrightarrow> \<not> isDirectory e (upTo p j)) \<longrightarrow>
           resolved e p k r"
  using assms
proof (induction rule: watchLocation_loop.raw_induct [rotated, consumes 1])
  case (1 loop e wp wt r)
  show ?case
  proof (intro allI impI, elim conjE)
    fix p k
    assume wp: "wp = upTo p k" and wt: "wt = upTo p (Suc k)" and k: "k \<le> length (elems p)"
      and above: "\<forall>j. k < j \<and> j \<le> length (elems p) \<longrightarrow> \<not> isDirectory e (upTo p j)"
    show "resolved e p k r"
    proof (cases "isDirectory e wp")
      case True
      with 1(2) have "r = (wp, wt)" by simp
      with True wp wt above show ?thesis by (auto simp: resolved_def)
    next
      case False
      with 1(2) have rec: "loop e (Dir wp) wp = Some r" by simp
      show ?thesis
      proof (cases k)
        case 0
        let ?q = "Path (isAbs p) []"
        from 0 wp have wpq: "wp = ?q" by (simp add: upTo_def)
        then have "Dir wp = upTo ?q 0 \<and> wp = upTo ?q (Suc 0) \<and> 0 \<le> length (elems ?q) \<and>
            (\<forall>j. 0 < j \<and> j \<le> length (elems ?q) \<longrightarrow> \<not> isDirectory e (upTo ?q j))"
          by (simp add: upTo_def)
        with 1(1) [OF rec] have "resolved e ?q 0 r" by blast
        then have "isDirectory e ?q" by (auto simp: resolved_def upTo_def)
        with False wpq show ?thesis by simp
      next
        case (Suc k')
        have "\<forall>j. k' < j \<and> j \<le> length (elems p) \<longrightarrow> \<not> isDirectory e (upTo p j)"
        proof (intro allI impI)
          fix j assume j: "k' < j \<and> j \<le> length (elems p)"
          show "\<not> isDirectory e (upTo p j)"
          proof (cases "j = k")
            case True
            with False wp show ?thesis by simp
          next
            case False
            with j Suc above show ?thesis by simp
          qed
        qed
        moreover from Suc wp k have "Dir wp = upTo p k'" by (simp add: Dir_upTo)
        moreover from Suc wp have "wp = upTo p (Suc k')" by simp
        moreover from Suc k have "k' \<le> length (elems p)" by simp
        ultimately have "resolved e p k' r" using 1(1) [OF rec] by blast
        with Suc show ?thesis by (auto intro: resolved_mono)
      qed
    qed
  qed
qed

text \<open>
  Claim C7. Whatever the watch target \<open>p\<close>, when \<open>watchLocation\<close> returns the pair of
  \<open>anchorDir\<close> and \<open>expectedChild\<close>, then \<open>anchorDir\<close> is a directory that exists at that
  moment, it is \<open>p\<close> itself or an ancestor of \<open>p\<close>, and nothing between it and \<open>p\<close>
  (\<open>p\<close> included) is an existing directory: it is the nearest one, walking upward.
  \<open>expectedChild\<close> is the path one element longer than \<open>anchorDir\<close> on the way to \<open>p\<close>,
  hence a direct child of \<open>anchorDir\<close>, or it is \<open>p\<close> itself when \<open>p\<close> is a directory
  and so its own anchor.
\<close>

theorem watchLocation_finds_nearest_directory:
  assumes "watchLocation e p = Some (anchorDir, expectedChild)"
  shows "isDirectory e anchorDir
       \<and> (\<exists>n \<le> length (elems p).
            anchorDir = upTo p n \<and> expectedChild = upTo p (Suc n) \<and>
            (\<forall>j. n < j \<and> j \<le> length (elems p) \<longrightarrow> \<not> isDirectory e (upTo p j)))
       \<and> ((anchorDir = p \<and> expectedChild = p) \<or>
            (Dir expectedChild = anchorDir \<and> expectedChild \<noteq> anchorDir))"
proof -
  let ?k = "length (elems p)"
  from assms have "watchLocation_loop e p p = Some (anchorDir, expectedChild)"
    by (simp add: watchLocation_def)
  from watchLocation_loop_resolved [OF this]
  have r: "resolved e p ?k (anchorDir, expectedChild)" by (auto dest!: spec [of _ p] spec [of _ ?k])
  then obtain n where n: "n \<le> ?k" "anchorDir = upTo p n" "expectedChild = upTo p (Suc n)"
    and dir: "isDirectory e anchorDir"
    and none: "\<forall>j. n < j \<and> j \<le> ?k \<longrightarrow> \<not> isDirectory e (upTo p j)"
    by (auto simp: resolved_def)
  have "(anchorDir = p \<and> expectedChild = p) \<or>
        (Dir expectedChild = anchorDir \<and> expectedChild \<noteq> anchorDir)"
  proof (cases "n = ?k")
    case True
    with n show ?thesis by simp
  next
    case False
    with n(1) have lt: "Suc n \<le> ?k" by simp
    from Dir_upTo [OF lt] n have "Dir expectedChild = anchorDir" by simp
    moreover from lt n have "expectedChild \<noteq> anchorDir"
      by (auto simp: upTo_def dest: arg_cong [where f = length])
    ultimately show ?thesis by simp
  qed
  with n dir none show ?thesis by blast
qed

theorem watchLocation_finds_nearest_directory_witness:
  "watchLocation emptyTree (Path True [''d'', ''x'', ''f'']) =
     Some (Path True [''d''], Path True [''d'', ''x''])
   \<and> isDirectory emptyTree (Path True [''d''])
   \<and> Dir (Path True [''d'', ''x'']) = Path True [''d'']
   \<and> Path True [''d'', ''x''] \<noteq> Path True [''d'']"
proof -
  have w: "watchLocation emptyTree (Path True [''d'', ''x'', ''f'']) =
     Some (Path True [''d''], Path True [''d'', ''x''])" by code_simp
  from watchLocation_finds_nearest_directory [OF w] w show ?thesis by simp
qed

subsection \<open>Events and the presence of the target\<close>


lemma emits_refl: "emits e w w []"
  by (simp add: emits_def)

lemma emits_refl_ex [simp]: "\<exists>evs. emits e w w evs"
  using emits_refl by blast




lemma emits_watches [simp]: "emits e w (w'\<lparr>watches := ws\<rparr>) evs = emits e w w' evs"
  by (simp add: emits_def)

lemma emits_closed [simp]:
  "emits e w (w\<lparr>updateChClosed := a, watcherClosed := b\<rparr>) []"
  by (simp add: emits_def)







subsection \<open>Modifications of the target\<close>

text \<open>
  A notification that is neither of the remove class nor of the create class is compared,
  by \<open>os.SameFile\<close>, with \<open>targetStat\<close>: the metadata that \<open>run\<close> read when it entered
  the inner loop. When they are the same file and the watch is on the target itself,
  \<open>Updated\<close> is sent and the metadata refreshed; when they are not the same file,
  nothing happens.
\<close>

lemma modify_of_snapshot_file_emits_Updated:
  assumes "Op ev AND Remove = 0" and "Op ev AND Create = 0"
    and "SameFile targetStat (Stat e (Name ev))"
  shows "run_step e (Notify ev) (Watching p (filename w) targetStat, w) =
           Some (Watching p (filename w) targetStat,
                 w\<lparr>fileInfo := Stat e (filename w), updateCh := updateCh w @ [Updated]\<rparr>)"
  using assms by (simp add: handleEvent_def)

lemma modify_of_other_file_emits_nothing:
  assumes "Op ev AND Remove = 0" and "Op ev AND Create = 0"
    and "\<not> SameFile targetStat (Stat e (Name ev))"
  shows "run_step e (Notify ev) (Watching p target targetStat, w) =
           Some (Watching p target targetStat, w)"
  using assms by simp

text \<open>
  \<open>targetStat\<close> is read once, on entering the inner loop. When the target is absent at
  that moment it is nil, and \<open>os.SameFile\<close> of nil and anything is false: as long as
  the worker stays in this inner loop, no modification is reported, whatever the
  watcher has recorded in \<open>fileInfo\<close> meanwhile.
\<close>

lemma modify_ignored_while_snapshot_nil:
  assumes "Op ev AND Remove = 0" and "Op ev AND Create = 0"
  shows "run_step e (Notify ev) (Watching p target None, w) = Some (Watching p target None, w)"
  using assms by (simp add: SameFile_def)

lemma create_in_place_keeps_snapshot:
  assumes "Op ev AND Remove = 0" and "Op ev AND Create \<noteq> 0"
  shows "run_step e (Notify ev) (Watching p (filename w) targetStat, w) =
           Some (Watching p (filename w) targetStat, handleCreateEvent e w)"
  using assms by (simp add: handleCreateEvent_def Let_def)

text \<open>
  Claim C1 does not hold of the code. The target \<open>/d/f\<close> is absent when the watcher is
  made and its directory \<open>/d\<close> exists. The file is created: the watcher sends
  \<open>Created\<close> and records the metadata of the new file, and stays in its inner loop.
  The file is then written to, and the write notification names the very file whose
  metadata the watcher holds; but the worker compares it with \<open>targetStat\<close>, which is
  still the nil it read before the file existed, and sends nothing. The stream is
  \<open>[Created]\<close>, where the claim has \<open>[Created, Updated]\<close>.
\<close>

theorem write_after_creation_in_place_is_not_reported:
  "NewFileWatcherWithContext emptyTree (Path True [''d'', ''f'']) =
     Inr \<lparr>filename = Path True [''d'', ''f''], fileInfo = None, watches = [],
          watcherClosed = False, updateCh = [], updateChClosed = False\<rparr>
   \<and> run [(emptyTree, Enter),
           (treeWithFile, Notify \<lparr>Name = Path True [''d'', ''f''], Op = Create\<rparr>),
           (treeWithFileWritten, Notify \<lparr>Name = Path True [''d'', ''f''], Op = Write\<rparr>)]
          \<lparr>filename = Path True [''d'', ''f''], fileInfo = None, watches = [],
             watcherClosed = False, updateCh = [], updateChClosed = False\<rparr> =
     Some (Watching (Path True [''d'']) (Path True [''d'', ''f'']) None,
           \<lparr>filename = Path True [''d'', ''f''],
              fileInfo = Some \<lparr>IsDir = False, fileId = 3, Size = 0, ModTime = 10\<rparr>,
              watches = [Path True [], Path True [''d'']], watcherClosed = False,
              updateCh = [Created], updateChClosed = False\<rparr>)
   \<and> SameFile (Some \<lparr>IsDir = False, fileId = 3, Size = 0, ModTime = 10\<rparr>)
        (Stat treeWithFileWritten (Path True [''d'', ''f'']))"
  by code_simp

text \<open>
  When the file exists as the watcher is made, the same write is reported: \<open>targetStat\<close>
  then holds the metadata of the file. A write to the sibling \<open>/d/g\<close> is not.
\<close>

lemma write_to_existing_target_is_reported:
  "NewFileWatcherWithContext treeWithFile (Path True [''d'', ''f'']) =
     Inr \<lparr>filename = Path True [''d'', ''f''],
          fileInfo = Some \<lparr>IsDir = False, fileId = 3, Size = 0, ModTime = 10\<rparr>,
          watches = [], watcherClosed = False, updateCh = [], updateChClosed = False\<rparr>
   \<and> map_option (updateCh \<circ> snd)
       (run [(treeWithFile, Enter),
             (treeWithFileWritten, Notify \<lparr>Name = Path True [''d'', ''f''], Op = Write\<rparr>),
             (treeWithFileWritten, Notify \<lparr>Name = Path True [''d'', ''g''], Op = Write\<rparr>)]
          \<lparr>filename = Path True [''d'', ''f''],
             fileInfo = Some \<lparr>IsDir = False, fileId = 3, Size = 0, ModTime = 10\<rparr>,
             watches = [], watcherClosed = False, updateCh = [], updateChClosed = False\<rparr>) =
     Some [Updated]"
  by code_simp

end
